theory Spec2Isabelle
  imports Main
begin

section \<open>The event bus of pkg/eventbus\<close>

text \<open>
  The bus of \<^verbatim>\<open>pkg/eventbus/eventbus.go\<close> keeps a slice of Go channels and
  sends, closes and compares them. Channels are references, so the model has an explicit
  store of channels and the bus holds references into it. Every operation of the bus
  but \<^verbatim>\<open>Subscribers\<close> runs under the bus's mutex from its first to its last
  statement, so an operation is one atomic step on the store and the registry.

  A panic ends the call and, unrecovered, the program: an operation returns either the
  panic (\<open>Inl\<close>) or its result and the next state (\<open>Inr\<close>), and no state is given
  after a panic.
\<close>

subsection \<open>Go channels\<close>

text \<open>
  A buffered channel: its capacity (fixed by \<^verbatim>\<open>make\<close>), the values queued in it,
  oldest first, and whether \<^verbatim>\<open>close\<close> has been called on it.
\<close>

record 'e chan =
  cap :: nat
  buf :: "'e list"
  closed :: bool

text \<open>
  A channel reference is an index into the store. An index at or beyond the end of the
  store refers to no channel; the operations below treat it as Go treats the nil
  channel.
\<close>

type_synonym chanref = nat

type_synonym 'e store = "'e chan list"

text \<open>The run-time panics that the statements of the bus can raise.\<close>

datatype panic =
  MakechanSizeOutOfRange
  | SendOnClosedChannel
  | CloseOfClosedChannel
  | CloseOfNilChannel

definition chan_at :: "'e store \<Rightarrow> chanref \<Rightarrow> 'e chan option" where
  "chan_at st ch = (if ch < length st then Some (st ! ch) else None)"

text \<open>\<^verbatim>\<open>make(chan any, capacity)\<close>: a new, open, empty channel at a fresh reference;
  a negative capacity panics. (So does a capacity beyond what the allocator can give;
  the model has no bound on memory.)\<close>

definition make_chan :: "int \<Rightarrow> 'e store \<Rightarrow> panic + (chanref \<times> 'e store)" where
  "make_chan capacity st =
     (if capacity < 0 then Inl MakechanSizeOutOfRange
      else Inr (length st, st @ [\<lparr>cap = nat capacity, buf = [], closed = False\<rparr>]))"

text \<open>
  \<^verbatim>\<open>select { case ch <- event: default: }\<close> with no receiver parked on the channel:
  the send panics on a closed channel, appends to the buffer when there is room, and
  otherwise (buffer full, or nil channel) the default branch runs and nothing changes.
\<close>

definition try_send :: "chanref \<Rightarrow> 'e \<Rightarrow> 'e store \<Rightarrow> panic + 'e store" where
  "try_send ch event st =
     (case chan_at st ch of
        None \<Rightarrow> Inr st
      | Some c \<Rightarrow>
          if closed c then Inl SendOnClosedChannel
          else if length (buf c) < cap c then Inr (st[ch := c\<lparr>buf := buf c @ [event]\<rparr>])
          else Inr st)"

text \<open>\<^verbatim>\<open>close(ch)\<close>: panics on a nil channel and on a channel closed before.\<close>

definition close_chan :: "chanref \<Rightarrow> 'e store \<Rightarrow> panic + 'e store" where
  "close_chan ch st =
     (case chan_at st ch of
        None \<Rightarrow> Inl CloseOfNilChannel
      | Some c \<Rightarrow>
          if closed c then Inl CloseOfClosedChannel
          else Inr (st[ch := c\<lparr>closed := True\<rparr>]))"

text \<open>
  One receive \<^verbatim>\<open>v, ok := <-ch\<close> as the consumer sees it: the oldest buffered value
  if there is one; on an empty closed channel the zero value with \<^verbatim>\<open>ok == false\<close>
  (end of stream); on an empty open channel (or the nil channel) the receive would
  wait.
\<close>

datatype 'e received = Value 'e | EndOfStream | WouldBlock

definition try_recv :: "chanref \<Rightarrow> 'e store \<Rightarrow> 'e received \<times> 'e store" where
  "try_recv ch st =
     (case chan_at st ch of
        None \<Rightarrow> (WouldBlock, st)
      | Some c \<Rightarrow>
          (case buf c of
             v # vs \<Rightarrow> (Value v, st[ch := c\<lparr>buf := vs\<rparr>])
           | [] \<Rightarrow> (if closed c then EndOfStream else WouldBlock, st)))"

text \<open>\<open>n\<close> receives in a row, with what each of them saw.\<close>

fun recv_n :: "nat \<Rightarrow> chanref \<Rightarrow> 'e store \<Rightarrow> 'e received list \<times> 'e store" where
  "recv_n 0 ch st = ([], st)"
| "recv_n (Suc n) ch st =
     (case try_recv ch st of
        (r, st') \<Rightarrow> (case recv_n n ch st' of (rs, st'') \<Rightarrow> (r # rs, st'')))"

subsection \<open>The bus\<close>

text \<open>
  The world of one bus: the store of all channels, and the field \<^verbatim>\<open>subscribers\<close> of
  the \<^verbatim>\<open>eventBus\<close> struct. A Go slice is either nil (\<open>None\<close>) or holds a sequence
  of elements; \<^verbatim>\<open>range\<close>, \<^verbatim>\<open>len\<close> and \<^verbatim>\<open>append\<close> read a nil slice as the empty
  sequence (\<open>elems\<close>).
\<close>

record 'e world =
  store :: "'e store"
  subscribers :: "chanref list option"

definition elems :: "'a list option \<Rightarrow> 'a list" where
  "elems sl = (case sl of None \<Rightarrow> [] | Some xs \<Rightarrow> xs)"

text \<open>\<^verbatim>\<open>New()\<close>: a bus with the empty, non-nil slice, in a world that may already
  hold channels of other owners.\<close>

definition New :: "'e store \<Rightarrow> 'e world" where
  "New st = \<lparr>store = st, subscribers = Some []\<rparr>"

definition Subscribe :: "int \<Rightarrow> 'e world \<Rightarrow> panic + (chanref \<times> 'e world)" where
  "Subscribe capacity w =
     (case make_chan capacity (store w) of
        Inl p \<Rightarrow> Inl p
      | Inr (ch, st') \<Rightarrow>
          Inr (ch, w\<lparr>store := st', subscribers := Some (elems (subscribers w) @ [ch])\<rparr>))"

text \<open>The loop of \<^verbatim>\<open>Publish\<close> over the registry, first element first.\<close>

fun publish_loop :: "chanref list \<Rightarrow> 'e \<Rightarrow> 'e store \<Rightarrow> panic + 'e store" where
  "publish_loop [] event st = Inr st"
| "publish_loop (ch # rest) event st =
     (case try_send ch event st of
        Inl p \<Rightarrow> Inl p
      | Inr st' \<Rightarrow> publish_loop rest event st')"

definition Publish :: "'e \<Rightarrow> 'e world \<Rightarrow> panic + 'e world" where
  "Publish event w =
     (case publish_loop (elems (subscribers w)) event (store w) of
        Inl p \<Rightarrow> Inl p
      | Inr st' \<Rightarrow> Inr (w\<lparr>store := st'\<rparr>))"

text \<open>
  The loop of \<^verbatim>\<open>Unsubscribe\<close> stops at the first index \<open>i\<close> whose element equals
  the handle.
\<close>

fun index_of :: "chanref list \<Rightarrow> chanref \<Rightarrow> nat option" where
  "index_of [] ch = None"
| "index_of (sub # subs) ch =
     (if sub = ch then Some 0 else map_option Suc (index_of subs ch))"

text \<open>
  At that index the slice becomes \<^verbatim>\<open>append(subscribers[:i], subscribers[i+1:]...)\<close>
  and then the handle is closed. With no such index nothing happens.
\<close>

definition Unsubscribe :: "chanref \<Rightarrow> 'e world \<Rightarrow> panic + 'e world" where
  "Unsubscribe ch w =
     (case index_of (elems (subscribers w)) ch of
        None \<Rightarrow> Inr w
      | Some i \<Rightarrow>
          (let subs = elems (subscribers w);
               subs' = take i subs @ drop (i + 1) subs
           in case close_chan ch (store w) of
                Inl p \<Rightarrow> Inl p
              | Inr st' \<Rightarrow> Inr (w\<lparr>store := st', subscribers := Some subs'\<rparr>)))"

text \<open>\<^verbatim>\<open>Subscribers\<close> returns the slice itself, as a value here: that the caller's
  slice shares its array with the bus's is not modelled.\<close>

definition Subscribers :: "'e world \<Rightarrow> chanref list option" where
  "Subscribers w = subscribers w"

text \<open>The loop of \<^verbatim>\<open>Close\<close> closes every element in turn; then the slice is set
  to nil.\<close>

fun close_loop :: "chanref list \<Rightarrow> 'e store \<Rightarrow> panic + 'e store" where
  "close_loop [] st = Inr st"
| "close_loop (ch # rest) st =
     (case close_chan ch st of
        Inl p \<Rightarrow> Inl p
      | Inr st' \<Rightarrow> close_loop rest st')"

definition Close :: "'e world \<Rightarrow> panic + 'e world" where
  "Close w =
     (case close_loop (elems (subscribers w)) (store w) of
        Inl p \<Rightarrow> Inl p
      | Inr st' \<Rightarrow> Inr (w\<lparr>store := st', subscribers := None\<rparr>))"

subsection \<open>Sequences of calls\<close>

text \<open>
  A caller's calls on the bus, and a consumer's receive on a handle. A panic ends the
  sequence.
\<close>

datatype 'e op =
  SubscribeOp int
  | PublishOp 'e
  | UnsubscribeOp chanref
  | CloseOp
  | RecvOp chanref

fun exec :: "'e op \<Rightarrow> 'e world \<Rightarrow> panic + 'e world" where
  "exec (SubscribeOp capacity) w =
     (case Subscribe capacity w of Inl p \<Rightarrow> Inl p | Inr (ch, w') \<Rightarrow> Inr w')"
| "exec (PublishOp event) w = Publish event w"
| "exec (UnsubscribeOp ch) w = Unsubscribe ch w"
| "exec CloseOp w = Close w"
| "exec (RecvOp ch) w = Inr (w\<lparr>store := snd (try_recv ch (store w))\<rparr>)"

fun run :: "'e op list \<Rightarrow> 'e world \<Rightarrow> panic + 'e world" where
  "run [] w = Inr w"
| "run (x # xs) w =
     (case exec x w of Inl p \<Rightarrow> Inl p | Inr w' \<Rightarrow> run xs w')"

subsection \<open>Notions used to state the properties\<close>

text \<open>A reference is open when it refers to a channel of the store that has not been
  closed; it has room when that channel's buffer is not full.\<close>

definition is_open :: "'e store \<Rightarrow> chanref \<Rightarrow> bool" where
  "is_open st ch = (case chan_at st ch of None \<Rightarrow> False | Some c \<Rightarrow> \<not> closed c)"

definition has_room :: "'e store \<Rightarrow> chanref \<Rightarrow> bool" where
  "has_room st ch =
     (case chan_at st ch of None \<Rightarrow> False | Some c \<Rightarrow> length (buf c) < cap c)"

text \<open>
  The registry is well formed when its handles are pairwise different and each refers to
  an open channel of the store.
\<close>

definition registry_ok :: "'e world \<Rightarrow> bool" where
  "registry_ok w \<longleftrightarrow>
     distinct (elems (subscribers w)) \<and> list_all (is_open (store w)) (elems (subscribers w))"

text \<open>The store in which \<open>f\<close> has been applied to the channels at the references
  \<open>chs\<close> and every other channel is as before.\<close>

definition update_all :: "('e chan \<Rightarrow> 'e chan) \<Rightarrow> chanref list \<Rightarrow> 'e store \<Rightarrow> 'e store" where
  "update_all f chs st = map (\<lambda>(i, c). if i \<in> set chs then f c else c) (enumerate 0 st)"

text \<open>All capacities asked for in a sequence of calls are non-negative.\<close>

fun caps_ok :: "'e op list \<Rightarrow> bool" where
  "caps_ok [] = True"
| "caps_ok (SubscribeOp capacity # xs) = (0 \<le> capacity \<and> caps_ok xs)"
| "caps_ok (x # xs) = caps_ok xs"

section \<open>Properties\<close>

subsection \<open>Channels, loops and the shape of the registry\<close>

lemma index_of_None: "ch \<notin> set subs \<Longrightarrow> index_of subs ch = None"
  by (induction subs) auto

lemma chan_at_update:
  "chan_at (st[ch := c]) h = (if h = ch \<and> ch < length st then Some c else chan_at st h)"
  by (simp add: chan_at_def)


lemma is_open_lt: "is_open st ch \<Longrightarrow> ch < length st"
  by (simp add: is_open_def chan_at_def split: if_splits)

lemma is_open_nth: "is_open st ch \<longleftrightarrow> ch < length st \<and> \<not> closed (st ! ch)"
  by (simp add: is_open_def chan_at_def)

lemma is_open_cong:
  assumes "map closed st' = map closed st"
  shows "is_open st' ch = is_open st ch"
proof -
  have len: "length st' = length st"
    using assms by (metis length_map)
  have "closed (st' ! ch) = closed (st ! ch)" if "ch < length st"
    using that assms len by (metis nth_map)
  then show ?thesis
    by (auto simp: is_open_nth len)
qed

lemma map_closed_update:
  "closed c = closed (st ! ch) \<Longrightarrow> map closed (st[ch := c]) = map closed st"
proof (cases "ch < length st")
  case True
  assume "closed c = closed (st ! ch)"
  with True show ?thesis
    by (simp add: map_update list_update_same_conv)
next
  case False
  then show ?thesis by (simp add: list_update_beyond)
qed

lemma try_send_closed:
  "try_send ch e st = Inr st' \<Longrightarrow> map closed st' = map closed st"
  by (auto simp: try_send_def chan_at_def map_closed_update split: if_splits)

lemma try_recv_closed:
  "map closed (snd (try_recv ch st)) = map closed st"
  by (auto simp: try_recv_def chan_at_def map_closed_update split: if_splits list.splits)

lemma try_send_open:
  "is_open st ch \<Longrightarrow>
   try_send ch e st =
     Inr (if has_room st ch then st[ch := (st ! ch)\<lparr>buf := buf (st ! ch) @ [e]\<rparr>] else st)"
  by (simp add: try_send_def is_open_def has_room_def chan_at_def split: if_splits)

lemma close_chan_open:
  "is_open st ch \<Longrightarrow> close_chan ch st = Inr (st[ch := (st ! ch)\<lparr>closed := True\<rparr>])"
  by (simp add: close_chan_def is_open_def chan_at_def split: if_splits)

lemma close_chan_Inr:
  "close_chan ch st = Inr st' \<Longrightarrow> is_open st ch"
  by (auto simp: close_chan_def is_open_def split: option.splits if_splits)

lemma is_open_after_close:
  "ch < length st \<Longrightarrow>
   is_open (st[ch := (st ! ch)\<lparr>closed := True\<rparr>]) h \<longleftrightarrow> is_open st h \<and> h \<noteq> ch"
  by (auto simp: is_open_nth nth_list_update)

lemma length_update_all [simp]: "length (update_all f chs st) = length st"
  by (simp add: update_all_def)

lemma nth_update_all:
  "i < length st \<Longrightarrow> update_all f chs st ! i = (if i \<in> set chs then f (st ! i) else st ! i)"
  by (simp add: update_all_def nth_enumerate_eq)

lemma update_all_Nil [simp]: "update_all f [] st = st"
  by (rule nth_equalityI) (simp_all add: nth_update_all)

lemma update_all_Cons:
  "ch \<notin> set rest \<Longrightarrow> ch < length st \<Longrightarrow>
   update_all f rest (st[ch := f (st ! ch)]) = update_all f (ch # rest) st"
  by (rule nth_equalityI) (auto simp: nth_update_all nth_list_update)

lemma chan_at_update_all:
  "chan_at (update_all f chs st) h =
     map_option (\<lambda>c. if h \<in> set chs then f c else c) (chan_at st h)"
  by (simp add: chan_at_def nth_update_all)

lemma is_open_update_other: "h \<noteq> ch \<Longrightarrow> is_open (st[ch := c]) h = is_open st h"
  by (simp add: is_open_def chan_at_update)

lemma has_room_update_other: "h \<noteq> ch \<Longrightarrow> has_room (st[ch := c]) h = has_room st h"
  by (simp add: has_room_def chan_at_update)

lemma list_all_update_other:
  "ch \<notin> set rest \<Longrightarrow> list_all (is_open (st[ch := c])) rest = list_all (is_open st) rest"
  "ch \<notin> set rest \<Longrightarrow> list_all (has_room (st[ch := c])) rest = list_all (has_room st) rest"
  by (induction rest) (auto simp: is_open_update_other has_room_update_other)

lemma try_send_other:
  "try_send ch e st = Inr st' \<Longrightarrow> h \<noteq> ch \<Longrightarrow> chan_at st' h = chan_at st h"
  by (auto simp: try_send_def chan_at_update split: option.splits if_splits)

lemma publish_loop_ok:
  "list_all (is_open st) subs \<Longrightarrow>
   \<exists>st'. publish_loop subs e st = Inr st' \<and> map closed st' = map closed st"
proof (induction subs arbitrary: st)
  case Nil
  then show ?case by simp
next
  case (Cons ch rest)
  from Cons.prems have op: "is_open st ch" and rest: "list_all (is_open st) rest"
    by simp_all
  obtain st1 where s1: "try_send ch e st = Inr st1"
    using try_send_open [OF op] by blast
  have c1: "map closed st1 = map closed st"
    using s1 by (rule try_send_closed)
  have "list_all (is_open st1) rest"
    using rest is_open_cong [OF c1] by (simp add: list_all_iff)
  from Cons.IH [OF this] obtain st' where
    "publish_loop rest e st1 = Inr st'" "map closed st' = map closed st1"
    by blast
  with s1 c1 show ?case by simp
qed

lemma publish_loop_other:
  "publish_loop subs e st = Inr st' \<Longrightarrow> h \<notin> set subs \<Longrightarrow> chan_at st' h = chan_at st h"
proof (induction subs arbitrary: st)
  case Nil
  then show ?case by simp
next
  case (Cons ch rest)
  then show ?case
    by (auto split: sum.splits simp: try_send_other)
qed

lemma publish_loop_room:
  "distinct subs \<Longrightarrow> list_all (is_open st) subs \<Longrightarrow> list_all (has_room st) subs \<Longrightarrow>
   publish_loop subs e st = Inr (update_all (\<lambda>c. c\<lparr>buf := buf c @ [e]\<rparr>) subs st)"
proof (induction subs arbitrary: st)
  case Nil
  then show ?case by simp
next
  case (Cons ch rest)
  let ?f = "\<lambda>c. c\<lparr>buf := buf c @ [e]\<rparr>"
  let ?st1 = "st[ch := ?f (st ! ch)]"
  from Cons.prems have op: "is_open st ch" and room: "has_room st ch"
    and notin: "ch \<notin> set rest" and dist: "distinct rest"
    and rest_open: "list_all (is_open st) rest" and rest_room: "list_all (has_room st) rest"
    by simp_all
  have s1: "try_send ch e st = Inr ?st1"
    using try_send_open [OF op, of e] room by simp
  have o1: "list_all (is_open ?st1) rest"
    using rest_open notin by (simp add: list_all_update_other)
  have r1: "list_all (has_room ?st1) rest"
    using rest_room notin by (simp add: list_all_update_other)
  have "publish_loop rest e ?st1 = Inr (update_all ?f rest ?st1)"
    by (rule Cons.IH [OF dist o1 r1])
  also have "update_all ?f rest ?st1 = update_all ?f (ch # rest) st"
    using notin is_open_lt [OF op] by (rule update_all_Cons)
  finally show ?case using s1 by simp
qed

lemma close_loop_ok:
  "distinct subs \<Longrightarrow> list_all (is_open st) subs \<Longrightarrow>
   close_loop subs st = Inr (update_all (\<lambda>c. c\<lparr>closed := True\<rparr>) subs st)"
proof (induction subs arbitrary: st)
  case Nil
  then show ?case by simp
next
  case (Cons ch rest)
  let ?f = "\<lambda>c. c\<lparr>closed := True\<rparr>"
  let ?st1 = "st[ch := ?f (st ! ch)]"
  from Cons.prems have op: "is_open st ch"
    and notin: "ch \<notin> set rest" and dist: "distinct rest"
    and rest_open: "list_all (is_open st) rest"
    by simp_all
  have lt: "ch < length st" using op by (rule is_open_lt)
  have s1: "close_chan ch st = Inr ?st1"
    using op by (rule close_chan_open)
  have o1: "list_all (is_open ?st1) rest"
    using rest_open notin by (simp add: list_all_update_other)
  have "close_loop rest ?st1 = Inr (update_all ?f rest ?st1)"
    by (rule Cons.IH [OF dist o1])
  also have "update_all ?f rest ?st1 = update_all ?f (ch # rest) st"
    using notin lt by (rule update_all_Cons)
  finally show ?case using s1 by simp
qed

lemma index_of_Some: "ch \<in> set subs \<Longrightarrow> \<exists>i. index_of subs ch = Some i"
  by (induction subs) auto

lemma index_of_remove1:
  "index_of subs ch = Some i \<Longrightarrow> take i subs @ drop (Suc i) subs = remove1 ch subs"
  by (induction subs arbitrary: i) (auto split: if_splits)

lemma Unsubscribe_known:
  assumes "registry_ok w" and "ch \<in> set (elems (subscribers w))"
  shows "Unsubscribe ch w =
    Inr (w\<lparr>store := (store w)[ch := (store w ! ch)\<lparr>closed := True\<rparr>],
           subscribers := Some (remove1 ch (elems (subscribers w)))\<rparr>)"
proof -
  obtain i where i: "index_of (elems (subscribers w)) ch = Some i"
    using index_of_Some [OF assms(2)] by blast
  have "is_open (store w) ch"
    using assms by (simp add: registry_ok_def list_all_iff)
  then have "close_chan ch (store w) = Inr ((store w)[ch := (store w ! ch)\<lparr>closed := True\<rparr>])"
    by (rule close_chan_open)
  with i index_of_remove1 [OF i] show ?thesis
    by (simp add: Unsubscribe_def)
qed

lemma Subscribe_ok:
  "0 \<le> capacity \<Longrightarrow>
   Subscribe capacity w =
     Inr (length (store w),
          w\<lparr>store := store w @ [\<lparr>cap = nat capacity, buf = [], closed = False\<rparr>],
            subscribers := Some (elems (subscribers w) @ [length (store w)])\<rparr>)"
  by (simp add: Subscribe_def make_chan_def)

lemma Subscribe_panic:
  "Subscribe capacity w = Inl p \<Longrightarrow> p = MakechanSizeOutOfRange \<and> capacity < 0"
  by (auto simp: Subscribe_def make_chan_def split: if_splits)

lemma is_open_append: "is_open st h \<Longrightarrow> is_open (st @ [c]) h"
  by (auto simp: is_open_nth nth_append)

lemma registry_ok_Subscribe:
  assumes "registry_ok w" and "Subscribe capacity w = Inr (ch, w')"
  shows "registry_ok w'"
proof -
  let ?subs = "elems (subscribers w)"
  have cap: "0 \<le> capacity"
    using assms(2) by (auto simp: Subscribe_def make_chan_def split: if_splits)
  have w': "w' = w\<lparr>store := store w @ [\<lparr>cap = nat capacity, buf = [], closed = False\<rparr>],
            subscribers := Some (?subs @ [length (store w)])\<rparr>"
    using assms(2) by (auto simp: Subscribe_ok [OF cap])
  have "length (store w) \<notin> set ?subs"
    using assms(1) is_open_lt by (fastforce simp: registry_ok_def list_all_iff)
  moreover have "list_all (is_open (store w @ [\<lparr>cap = nat capacity, buf = [], closed = False\<rparr>])) ?subs"
    using assms(1) by (auto simp: registry_ok_def list_all_iff is_open_append)
  moreover have "is_open (store w @ [\<lparr>cap = nat capacity, buf = [], closed = False\<rparr>]) (length (store w))"
    by (simp add: is_open_nth)
  ultimately show ?thesis
    using assms(1) by (simp add: w' registry_ok_def elems_def)
qed

lemma Publish_ok:
  assumes "registry_ok w"
  shows "\<exists>st'. Publish e w = Inr (w\<lparr>store := st'\<rparr>) \<and> map closed st' = map closed (store w)"
proof -
  have "list_all (is_open (store w)) (elems (subscribers w))"
    using assms by (simp add: registry_ok_def)
  from publish_loop_ok [OF this, of e] show ?thesis
    by (auto simp: Publish_def)
qed

lemma registry_ok_same_closed:
  assumes "registry_ok w" and "map closed st' = map closed (store w)"
  shows "registry_ok (w\<lparr>store := st'\<rparr>)"
proof -
  have "is_open st' = is_open (store w)"
    using is_open_cong [OF assms(2)] by (rule ext)
  with assms(1) show ?thesis
    by (simp add: registry_ok_def)
qed

lemma registry_ok_Unsubscribe:
  assumes "registry_ok w" and "Unsubscribe ch w = Inr w'"
  shows "registry_ok w'"
proof (cases "ch \<in> set (elems (subscribers w))")
  case False
  then show ?thesis
    using assms by (simp add: Unsubscribe_def index_of_None)
next
  case True
  let ?subs = "elems (subscribers w)"
  have w': "w' = w\<lparr>store := (store w)[ch := (store w ! ch)\<lparr>closed := True\<rparr>],
           subscribers := Some (remove1 ch ?subs)\<rparr>"
    using Unsubscribe_known [OF assms(1) True] assms(2) by simp
  have d: "distinct ?subs" and o: "list_all (is_open (store w)) ?subs"
    using assms(1) by (simp_all add: registry_ok_def)
  have "ch \<notin> set (remove1 ch ?subs)"
    using d by simp
  then have "list_all (is_open ((store w)[ch := (store w ! ch)\<lparr>closed := True\<rparr>])) (remove1 ch ?subs)
      = list_all (is_open (store w)) (remove1 ch ?subs)"
    by (rule list_all_update_other)
  moreover have "list_all (is_open (store w)) (remove1 ch ?subs)"
    using o by (auto simp: list_all_iff dest: notin_set_remove1)
  ultimately show ?thesis
    using d by (simp add: w' registry_ok_def elems_def)
qed

lemma Unsubscribe_total:
  assumes "registry_ok w"
  shows "\<exists>w'. Unsubscribe ch w = Inr w'"
proof (cases "ch \<in> set (elems (subscribers w))")
  case True
  with assms show ?thesis by (simp add: Unsubscribe_known)
next
  case False
  then show ?thesis by (simp add: Unsubscribe_def index_of_None)
qed

lemma Close_ok:
  "registry_ok w \<Longrightarrow>
   Close w = Inr (w\<lparr>store := update_all (\<lambda>c. c\<lparr>closed := True\<rparr>) (elems (subscribers w)) (store w),
                    subscribers := None\<rparr>)"
  by (simp add: Close_def registry_ok_def close_loop_ok)

lemma registry_ok_nil: "subscribers w = None \<Longrightarrow> registry_ok w"
  by (simp add: registry_ok_def elems_def)

lemma Close_Inr_subscribers: "Close w = Inr w' \<Longrightarrow> subscribers w' = None"
  by (auto simp: Close_def split: sum.splits)

lemma registry_ok_exec:
  assumes "registry_ok w" and "exec x w = Inr w'"
  shows "registry_ok w'"
proof (cases x)
  case (SubscribeOp capacity)
  with assms show ?thesis
    by (auto split: sum.splits dest: registry_ok_Subscribe)
next
  case (PublishOp e)
  with assms Publish_ok [OF assms(1), of e] show ?thesis
    by (auto simp: registry_ok_same_closed)
next
  case (UnsubscribeOp ch)
  with assms show ?thesis
    by (auto dest: registry_ok_Unsubscribe)
next
  case CloseOp
  with assms show ?thesis
    by (auto dest: Close_Inr_subscribers intro: registry_ok_nil)
next
  case (RecvOp ch)
  with assms show ?thesis
    by (auto simp: registry_ok_same_closed try_recv_closed)
qed

lemma exec_panic:
  assumes "registry_ok w" and "exec x w = Inl p"
  shows "p = MakechanSizeOutOfRange \<and> \<not> caps_ok [x]"
proof (cases x)
  case (SubscribeOp capacity)
  with assms show ?thesis
    by (auto split: sum.splits dest: Subscribe_panic)
next
  case (PublishOp e)
  with assms Publish_ok [OF assms(1), of e] show ?thesis by auto
next
  case (UnsubscribeOp ch)
  with assms Unsubscribe_total [OF assms(1), of ch] show ?thesis by auto
next
  case CloseOp
  with assms show ?thesis by (simp add: Close_ok)
next
  case (RecvOp ch)
  with assms show ?thesis by simp
qed

lemma registry_ok_run:
  "registry_ok w \<Longrightarrow> run xs w = Inr w' \<Longrightarrow> registry_ok w'"
proof (induction xs arbitrary: w)
  case Nil
  then show ?case by simp
next
  case (Cons x xs)
  show ?case
  proof (cases "exec x w")
    case (Inl q)
    with Cons.prems(2) show ?thesis by simp
  next
    case (Inr w1)
    with Cons.prems(2) have "run xs w1 = Inr w'" by simp
    with registry_ok_exec [OF Cons.prems(1) Inr] show ?thesis
      by (rule Cons.IH)
  qed
qed

lemma caps_ok_Cons: "caps_ok (x # xs) \<longleftrightarrow> caps_ok [x] \<and> caps_ok xs"
  by (cases x) simp_all

lemma run_panic:
  "registry_ok w \<Longrightarrow> run xs w = Inl p \<Longrightarrow> p = MakechanSizeOutOfRange \<and> \<not> caps_ok xs"
proof (induction xs arbitrary: w)
  case Nil
  then show ?case by simp
next
  case (Cons x xs)
  show ?case
  proof (cases "exec x w")
    case (Inl q)
    with Cons.prems exec_panic [OF Cons.prems(1) Inl] show ?thesis
      by (simp add: caps_ok_Cons [of x xs])
  next
    case (Inr w1)
    with Cons.prems have "run xs w1 = Inl p" by simp
    from Cons.IH [OF registry_ok_exec [OF Cons.prems(1) Inr] this] show ?thesis
      by (simp add: caps_ok_Cons [of x xs])
  qed
qed

lemma registry_ok_New: "registry_ok (New st)"
  by (simp add: registry_ok_def New_def elems_def)



lemma publish_loop_foldl:
  "distinct subs \<Longrightarrow> list_all (is_open st) subs \<Longrightarrow> list_all (has_room st) subs \<Longrightarrow>
   publish_loop subs e st =
     Inr (foldl (\<lambda>s ch. s[ch := (s ! ch)\<lparr>buf := buf (s ! ch) @ [e]\<rparr>]) st subs)"
proof (induction subs arbitrary: st)
  case Nil
  then show ?case by simp
next
  case (Cons ch rest)
  let ?st1 = "st[ch := (st ! ch)\<lparr>buf := buf (st ! ch) @ [e]\<rparr>]"
  from Cons.prems have op: "is_open st ch" and room: "has_room st ch"
    and notin: "ch \<notin> set rest" and dist: "distinct rest"
    and rest_open: "list_all (is_open st) rest" and rest_room: "list_all (has_room st) rest"
    by simp_all
  have s1: "try_send ch e st = Inr ?st1"
    using try_send_open [OF op, of e] room by simp
  have o1: "list_all (is_open ?st1) rest"
    using rest_open notin by (simp add: list_all_update_other)
  have r1: "list_all (has_room ?st1) rest"
    using rest_room notin by (simp add: list_all_update_other)
  from Cons.IH [OF dist o1 r1] s1 show ?case by simp
qed

lemma publish_loop_closed:
  "publish_loop subs e st = Inr st' \<Longrightarrow> map closed st' = map closed st"
proof (induction subs arbitrary: st)
  case Nil
  then show ?case by simp
next
  case (Cons ch rest)
  show ?case
  proof (cases "try_send ch e st")
    case (Inl p)
    with Cons.prems show ?thesis by simp
  next
    case (Inr st1)
    with Cons.prems have "publish_loop rest e st1 = Inr st'" by simp
    then have "map closed st' = map closed st1" by (rule Cons.IH)
    with try_send_closed [OF Inr] show ?thesis by simp
  qed
qed

lemma Publish_Inr:
  assumes "Publish e w = Inr w'"
  shows "subscribers w' = subscribers w" and "length (store w') = length (store w)"
    and "h \<notin> set (elems (subscribers w)) \<Longrightarrow> chan_at (store w') h = chan_at (store w) h"
proof -
  from assms obtain st' where loop: "publish_loop (elems (subscribers w)) e (store w) = Inr st'"
    and w': "w' = w\<lparr>store := st'\<rparr>"
    by (auto simp: Publish_def split: sum.splits)
  show "subscribers w' = subscribers w" by (simp add: w')
  have "map closed st' = map closed (store w)"
    using loop by (rule publish_loop_closed)
  then have "length st' = length (store w)" by (metis length_map)
  then show "length (store w') = length (store w)" by (simp add: w')
  show "chan_at (store w') h = chan_at (store w) h" if "h \<notin> set (elems (subscribers w))"
    using publish_loop_other [OF loop that] by (simp add: w')
qed

lemma close_chan_length: "close_chan ch st = Inr st' \<Longrightarrow> length st' = length st"
  by (auto simp: close_chan_def split: option.splits if_splits)

lemma close_loop_length: "close_loop subs st = Inr st' \<Longrightarrow> length st' = length st"
proof (induction subs arbitrary: st)
  case Nil
  then show ?case by simp
next
  case (Cons ch rest)
  show ?case
  proof (cases "close_chan ch st")
    case (Inl p)
    with Cons.prems show ?thesis by simp
  next
    case (Inr st1)
    with Cons.prems have "close_loop rest st1 = Inr st'" by simp
    then have "length st' = length st1" by (rule Cons.IH)
    with close_chan_length [OF Inr] show ?thesis by simp
  qed
qed

lemma Unsubscribe_Inr:
  assumes "Unsubscribe ch w = Inr w'"
  shows "set (elems (subscribers w')) \<subseteq> set (elems (subscribers w))"
    and "length (store w') = length (store w)"
proof -
  show "set (elems (subscribers w')) \<subseteq> set (elems (subscribers w))"
  proof (cases "index_of (elems (subscribers w)) ch")
    case None
    with assms show ?thesis by (simp add: Unsubscribe_def)
  next
    case (Some i)
    with assms obtain st' where
      "w' = w\<lparr>store := st', subscribers :=
          Some (take i (elems (subscribers w)) @ drop (Suc i) (elems (subscribers w)))\<rparr>"
      by (auto simp: Unsubscribe_def Let_def split: sum.splits)
    then have "elems (subscribers w') = remove1 ch (elems (subscribers w))"
      using index_of_remove1 [OF Some] by (simp add: elems_def)
    then show ?thesis by (simp add: set_remove1_subset)
  qed
  show "length (store w') = length (store w)"
    using assms
    by (auto simp: Unsubscribe_def Let_def close_chan_length split: option.splits sum.splits)
qed

lemma length_try_recv: "length (snd (try_recv ch st)) = length st"
  using try_recv_closed [of ch st] by (metis length_map)

lemma exec_keeps_out:
  assumes "h < length (store w)" and "h \<notin> set (elems (subscribers w))"
    and "exec x w = Inr w'"
  shows "h < length (store w') \<and> h \<notin> set (elems (subscribers w'))"
proof (cases x)
  case (SubscribeOp capacity)
  with assms(3) have "0 \<le> capacity"
    by (auto simp: Subscribe_def make_chan_def split: if_splits)
  with assms SubscribeOp show ?thesis
    by (auto simp: Subscribe_ok elems_def)
next
  case (PublishOp e)
  with assms Publish_Inr(1,2) [of e w w'] show ?thesis by simp
next
  case (UnsubscribeOp ch)
  with assms Unsubscribe_Inr [of ch w w'] show ?thesis by auto
next
  case CloseOp
  with assms show ?thesis
    by (auto simp: Close_def elems_def close_loop_length split: sum.splits)
next
  case (RecvOp ch)
  with assms show ?thesis by (auto simp: length_try_recv)
qed

lemma run_keeps_out:
  "h < length (store w) \<Longrightarrow> h \<notin> set (elems (subscribers w)) \<Longrightarrow> run xs w = Inr w' \<Longrightarrow>
   h < length (store w') \<and> h \<notin> set (elems (subscribers w'))"
proof (induction xs arbitrary: w)
  case Nil
  then show ?case by simp
next
  case (Cons x xs)
  show ?case
  proof (cases "exec x w")
    case (Inl p)
    with Cons.prems(3) show ?thesis by simp
  next
    case (Inr w1)
    with Cons.prems(3) have r: "run xs w1 = Inr w'" by simp
    from exec_keeps_out [OF Cons.prems(1,2) Inr]
    have "h < length (store w1)" and "h \<notin> set (elems (subscribers w1))" by simp_all
    from this r show ?thesis by (rule Cons.IH)
  qed
qed

lemma recv_n_drain:
  "chan_at st ch = Some c \<Longrightarrow> closed c \<Longrightarrow>
   recv_n (length (buf c) + n) ch st =
     (map Value (buf c) @ replicate n EndOfStream, st[ch := c\<lparr>buf := []\<rparr>])"
proof (induction "buf c" arbitrary: st c)
  case Nil
  have lt: "ch < length st" and c: "st ! ch = c"
    using Nil.prems(1) by (auto simp: chan_at_def split: if_splits)
  have same: "st[ch := c\<lparr>buf := []\<rparr>] = st"
    using Nil.hyps lt c by (simp add: list_update_same_conv)
  have r: "try_recv ch st = (EndOfStream, st)"
    using Nil.hyps [symmetric] Nil.prems by (simp add: try_recv_def)
  have "recv_n n ch st = (replicate n EndOfStream, st)"
    by (induction n) (simp_all add: r)
  with Nil.hyps [symmetric] same show ?case by simp
next
  case (Cons v vs)
  have lt: "ch < length st"
    using Cons.prems(1) by (auto simp: chan_at_def split: if_splits)
  let ?c1 = "c\<lparr>buf := vs\<rparr>"
  let ?st1 = "st[ch := ?c1]"
  have r: "try_recv ch st = (Value v, ?st1)"
    using Cons.hyps(2) [symmetric] Cons.prems(1) by (simp add: try_recv_def)
  have "recv_n (length (buf ?c1) + n) ch ?st1 =
     (map Value (buf ?c1) @ replicate n EndOfStream, ?st1[ch := ?c1\<lparr>buf := []\<rparr>])"
    using Cons.hyps(1) [of ?c1 ?st1] Cons.prems(2) lt by (simp add: chan_at_update)
  with Cons.hyps(2) [symmetric] r show ?case by simp
qed

lemma elems_simps: "elems (Some xs) = xs" "elems None = []"
  by (simp_all add: elems_def)

lemma filter_neq_id: "x \<notin> set xs \<Longrightarrow> filter (\<lambda>y. y \<noteq> x) xs = xs"
  by (induction xs) auto

lemma remove1_filter: "distinct xs \<Longrightarrow> remove1 x xs = filter (\<lambda>y. y \<noteq> x) xs"
  by (induction xs) (auto simp: filter_neq_id)

lemma length_remove1_Suc: "x \<in> set xs \<Longrightarrow> Suc (length (remove1 x xs)) = length xs"
  by (induction xs) auto

lemma close_loop_Inr:
  "close_loop subs st = Inr st' \<Longrightarrow> distinct subs \<and> list_all (is_open st) subs"
proof (induction subs arbitrary: st)
  case Nil
  then show ?case by simp
next
  case (Cons ch rest)
  show ?case
  proof (cases "close_chan ch st")
    case (Inl p)
    with Cons.prems show ?thesis by simp
  next
    case (Inr st1)
    have op: "is_open st ch" using Inr by (rule close_chan_Inr)
    then have lt: "ch < length st" by (rule is_open_lt)
    have st1: "st1 = st[ch := (st ! ch)\<lparr>closed := True\<rparr>]"
      using Inr close_chan_open [OF op] by simp
    from Cons.prems Inr have "close_loop rest st1 = Inr st'" by simp
    then have ih: "distinct rest \<and> list_all (is_open st1) rest" by (rule Cons.IH)
    then have "\<forall>h \<in> set rest. is_open st h \<and> h \<noteq> ch"
      using is_open_after_close [OF lt] by (simp add: st1 list_all_iff)
    with ih op show ?thesis by (auto simp: list_all_iff)
  qed
qed

lemma Close_Inr_registry_ok: "Close w = Inr w' \<Longrightarrow> registry_ok w"
  by (auto simp: Close_def registry_ok_def split: sum.splits dest: close_loop_Inr)

lemma Close_nil: "subscribers w = None \<Longrightarrow> Close w = Inr w"
  by (simp add: Close_def elems_def)

lemma Publish_nil: "subscribers w = None \<Longrightarrow> Publish e w = Inr w"
  by (simp add: Publish_def elems_def)

lemma Unsubscribe_nil: "subscribers w = None \<Longrightarrow> Unsubscribe ch w = Inr w"
  by (simp add: Unsubscribe_def elems_def)



lemma Subscribe_fresh:
  assumes "registry_ok w" and "Subscribe capacity w = Inr (ch, w')"
  shows "ch \<notin> set (elems (subscribers w))"
    and "subscribers w' = Some (elems (subscribers w) @ [ch])"
proof -
  have cap: "0 \<le> capacity"
    using assms(2) by (auto simp: Subscribe_def make_chan_def split: if_splits)
  have ch: "ch = length (store w)"
    and w': "subscribers w' = Some (elems (subscribers w) @ [ch])"
    using assms(2) by (auto simp: Subscribe_ok [OF cap])
  show "subscribers w' = Some (elems (subscribers w) @ [ch])" by (rule w')
  have "\<forall>h \<in> set (elems (subscribers w)). h < length (store w)"
    using assms(1) is_open_lt by (auto simp: registry_ok_def list_all_iff)
  then show "ch \<notin> set (elems (subscribers w))"
    using ch by auto
qed

lemma is_open_update_all_closed:
  "is_open (update_all (\<lambda>c. c\<lparr>closed := True\<rparr>) chs st) h \<longleftrightarrow> is_open st h \<and> h \<notin> set chs"
  by (auto simp: is_open_nth nth_update_all split: if_splits)

lemma closed_only_when_removed:
  assumes ok: "registry_ok w" and x: "exec x w = Inr w'"
    and before: "is_open (store w) ch" and after: "\<not> is_open (store w') ch"
  shows "ch \<in> set (elems (subscribers w)) \<and> ch \<notin> set (elems (subscribers w'))"
proof (cases x)
  case (SubscribeOp capacity)
  with x have cap: "0 \<le> capacity"
    by (auto simp: Subscribe_def make_chan_def split: if_splits)
  from x SubscribeOp have "store w' = store w @ [\<lparr>cap = nat capacity, buf = [], closed = False\<rparr>]"
    by (auto simp: Subscribe_ok [OF cap])
  with before after is_open_append show ?thesis by metis
next
  case (PublishOp e)
  from Publish_ok [OF ok, of e] x PublishOp
  have "map closed (store w') = map closed (store w)" by auto
  from is_open_cong [OF this] before after show ?thesis by simp
next
  case (UnsubscribeOp h)
  show ?thesis
  proof (cases "h \<in> set (elems (subscribers w))")
    case False
    with x UnsubscribeOp have "w' = w"
      by (simp add: Unsubscribe_def index_of_None)
    with before after show ?thesis by simp
  next
    case True
    have w': "w' = w\<lparr>store := (store w)[h := (store w ! h)\<lparr>closed := True\<rparr>],
           subscribers := Some (remove1 h (elems (subscribers w)))\<rparr>"
      using Unsubscribe_known [OF ok True] x UnsubscribeOp by simp
    have "is_open (store w) h"
      using ok True by (simp add: registry_ok_def list_all_iff)
    then have "h < length (store w)" by (rule is_open_lt)
    from is_open_after_close [OF this, of ch] before after
    have "ch = h" by (simp add: w')
    moreover have "distinct (elems (subscribers w))"
      using ok by (simp add: registry_ok_def)
    ultimately show ?thesis
      using True by (simp add: w' elems_simps)
  qed
next
  case CloseOp
  with x Close_ok [OF ok]
  have w': "w' = w\<lparr>store := update_all (\<lambda>c. c\<lparr>closed := True\<rparr>) (elems (subscribers w)) (store w),
                    subscribers := None\<rparr>"
    by simp
  with before after show ?thesis
    by (simp add: is_open_update_all_closed elems_simps)
next
  case (RecvOp h)
  with x have "map closed (store w') = map closed (store w)"
    by (auto simp: try_recv_closed)
  from is_open_cong [OF this] before after show ?thesis by simp
qed

section \<open>The claims\<close>

subsection \<open>Isolation\<close>



subsection \<open>Fan-out\<close>

text \<open>
  C2 (fan-out): in every state with a well-formed registry (\<open>k\<close> pairwise different
  open subscriptions) whose queues all have room, \<open>Publish e\<close> returns normally,
  appends \<open>e\<close> to the queue of each of the \<open>k\<close> subscriptions and changes no other
  channel; the result is the one obtained by enqueueing handle after handle, from the
  first of the registry to the last.
\<close>

theorem Publish_fan_out:
  assumes "registry_ok w" and "list_all (has_room (store w)) (elems (subscribers w))"
  shows "Publish e w =
           Inr (w\<lparr>store := update_all (\<lambda>c. c\<lparr>buf := buf c @ [e]\<rparr>)
                                      (elems (subscribers w)) (store w)\<rparr>)
       \<and> Publish e w =
           Inr (w\<lparr>store := foldl (\<lambda>s ch. s[ch := (s ! ch)\<lparr>buf := buf (s ! ch) @ [e]\<rparr>])
                                 (store w) (elems (subscribers w))\<rparr>)
       \<and> (\<forall>ch. chan_at (update_all (\<lambda>c. c\<lparr>buf := buf c @ [e]\<rparr>)
                                    (elems (subscribers w)) (store w)) ch =
                 (if ch \<in> set (elems (subscribers w))
                  then Some ((store w ! ch)\<lparr>buf := buf (store w ! ch) @ [e]\<rparr>)
                  else chan_at (store w) ch))"
proof -
  let ?subs = "elems (subscribers w)"
  have d: "distinct ?subs" and o: "list_all (is_open (store w)) ?subs"
    using assms(1) by (simp_all add: registry_ok_def)
  have "Publish e w =
           Inr (w\<lparr>store := update_all (\<lambda>c. c\<lparr>buf := buf c @ [e]\<rparr>) ?subs (store w)\<rparr>)"
    by (simp add: Publish_def publish_loop_room [OF d o assms(2)])
  moreover have "Publish e w =
           Inr (w\<lparr>store := foldl (\<lambda>s ch. s[ch := (s ! ch)\<lparr>buf := buf (s ! ch) @ [e]\<rparr>])
                                 (store w) ?subs\<rparr>)"
    by (simp add: Publish_def publish_loop_foldl [OF d o assms(2)])
  moreover have "chan_at (update_all (\<lambda>c. c\<lparr>buf := buf c @ [e]\<rparr>) ?subs (store w)) ch =
                 (if ch \<in> set ?subs
                  then Some ((store w ! ch)\<lparr>buf := buf (store w ! ch) @ [e]\<rparr>)
                  else chan_at (store w) ch)" for ch
  proof (cases "ch \<in> set ?subs")
    case True
    with o have "is_open (store w) ch" by (simp add: list_all_iff)
    then have "ch < length (store w)" by (rule is_open_lt)
    with True show ?thesis by (simp add: chan_at_def nth_update_all)
  next
    case False
    then show ?thesis by (simp add: chan_at_update_all option.map_ident)
  qed
  ultimately show ?thesis by blast
qed

theorem Publish_fan_out_witness:
  "registry_ok \<lparr>store = [\<lparr>cap = 1, buf = [], closed = False\<rparr>,
                          \<lparr>cap = 1, buf = [''z''], closed = False\<rparr>,
                          \<lparr>cap = 2, buf = [''x''], closed = False\<rparr>],
                 subscribers = Some [2, 0]\<rparr>
   \<and> list_all (has_room [\<lparr>cap = 1, buf = [], closed = False\<rparr>,
                          \<lparr>cap = 1, buf = [''z''], closed = False\<rparr>,
                          \<lparr>cap = 2, buf = [''x''], closed = False\<rparr>]) [2, 0]
   \<and> Publish ''e'' \<lparr>store = [\<lparr>cap = 1, buf = [], closed = False\<rparr>,
                          \<lparr>cap = 1, buf = [''z''], closed = False\<rparr>,
                          \<lparr>cap = 2, buf = [''x''], closed = False\<rparr>],
                 subscribers = Some [2, 0]\<rparr> =
       Inr \<lparr>store = [\<lparr>cap = 1, buf = [''e''], closed = False\<rparr>,
                          \<lparr>cap = 1, buf = [''z''], closed = False\<rparr>,
                          \<lparr>cap = 2, buf = [''x'', ''e''], closed = False\<rparr>],
                 subscribers = Some [2, 0]\<rparr>"
proof -
  let ?w = "\<lparr>store = [\<lparr>cap = 1, buf = [], closed = False\<rparr>,
                          \<lparr>cap = 1, buf = [''z''], closed = False\<rparr>,
                          \<lparr>cap = 2, buf = [''x''], closed = False\<rparr>],
                 subscribers = Some [2, 0]\<rparr>"
  have ok: "registry_ok ?w"
    by (simp add: registry_ok_def elems_def is_open_def chan_at_def)
  have room: "list_all (has_room (store ?w)) (elems (subscribers ?w))"
    by (simp add: elems_def has_room_def chan_at_def)
  have "Publish ''e'' ?w =
           Inr (?w\<lparr>store := foldl (\<lambda>s ch. s[ch := (s ! ch)\<lparr>buf := buf (s ! ch) @ [''e'']\<rparr>])
                                 (store ?w) (elems (subscribers ?w))\<rparr>)"
    using Publish_fan_out [OF ok room, of "''e''"] by blast
  then have "Publish ''e'' ?w =
       Inr \<lparr>store = [\<lparr>cap = 1, buf = [''e''], closed = False\<rparr>,
                          \<lparr>cap = 1, buf = [''z''], closed = False\<rparr>,
                          \<lparr>cap = 2, buf = [''x'', ''e''], closed = False\<rparr>],
                 subscribers = Some [2, 0]\<rparr>"
    by (simp add: elems_def)
  with ok room show ?thesis
    by (simp add: elems_def)
qed

subsection \<open>Unsubscribe ends the stream\<close>

text \<open>
  C3 (unsubscribe ends the stream): in every state with a well-formed registry that
  holds the handle \<open>ch\<close>, \<open>Unsubscribe ch\<close> returns normally; the registry is the old
  one without \<open>ch\<close>, the other handles in their old order, so it is shorter by exactly
  one; the channel of \<open>ch\<close> is closed and no other channel changes. A consumer of
  \<open>ch\<close> then receives the events that were buffered, in order, and after them only end
  of stream. Whatever calls follow, \<open>ch\<close> never comes back into the registry, and every
  later \<open>Publish\<close> returns normally and leaves the channel of \<open>ch\<close> as it was.
\<close>

theorem Unsubscribe_ends_stream:
  fixes w :: "'e world"
  assumes "registry_ok w" and "ch \<in> set (elems (subscribers w))"
  defines "w' \<equiv> w\<lparr>store := (store w)[ch := (store w ! ch)\<lparr>closed := True\<rparr>],
                   subscribers := Some (filter (\<lambda>x. x \<noteq> ch) (elems (subscribers w)))\<rparr>"
  shows "Unsubscribe ch w = Inr w'
       \<and> Suc (length (elems (subscribers w'))) = length (elems (subscribers w))
       \<and> chan_at (store w') ch = Some ((store w ! ch)\<lparr>closed := True\<rparr>)
       \<and> (\<forall>n. fst (recv_n (length (buf (store w ! ch)) + n) ch (store w')) =
                 map Value (buf (store w ! ch)) @ replicate n EndOfStream)
       \<and> (\<forall>xs w''. run xs w' = Inr w'' \<longrightarrow>
             ch \<notin> set (elems (subscribers w'')) \<and>
             (\<forall>e. \<exists>w3. Publish e w'' = Inr w3 \<and> chan_at (store w3) ch = chan_at (store w'') ch))"
proof -
  let ?subs = "elems (subscribers w)"
  have d: "distinct ?subs" and o: "list_all (is_open (store w)) ?subs"
    using assms(1) by (simp_all add: registry_ok_def)
  have flt: "remove1 ch ?subs = filter (\<lambda>x. x \<noteq> ch) ?subs"
    using d by (rule remove1_filter)
  have lt: "ch < length (store w)"
    using o assms(2) is_open_lt by (auto simp: list_all_iff)
  have u: "Unsubscribe ch w = Inr w'"
    using Unsubscribe_known [OF assms(1,2)] by (simp add: w'_def flt)
  have len: "Suc (length (elems (subscribers w'))) = length ?subs"
    using length_remove1_Suc [OF assms(2)] unfolding flt by (simp add: w'_def elems_simps)
  have at: "chan_at (store w') ch = Some ((store w ! ch)\<lparr>closed := True\<rparr>)"
    using lt by (simp add: w'_def chan_at_update)
  have drain: "fst (recv_n (length (buf (store w ! ch)) + n) ch (store w')) =
                 map Value (buf (store w ! ch)) @ replicate n EndOfStream" for n
    using recv_n_drain [OF at, of n] by simp
  have ok': "registry_ok w'"
    using assms(1) u by (rule registry_ok_Unsubscribe)
  have out: "ch < length (store w')" "ch \<notin> set (elems (subscribers w'))"
    using lt by (simp_all add: w'_def elems_def)
  have later: "\<forall>xs w''. run xs w' = Inr w'' \<longrightarrow>
             ch \<notin> set (elems (subscribers w'')) \<and>
             (\<forall>e. \<exists>w3. Publish e w'' = Inr w3 \<and> chan_at (store w3) ch = chan_at (store w'') ch)"
  proof (intro allI impI conjI)
    fix xs w'' assume r: "run xs w' = Inr w''"
    show "ch \<notin> set (elems (subscribers w''))"
      using run_keeps_out [OF out r] by simp
  next
    fix xs w'' e assume r: "run xs w' = Inr w''"
    have notin: "ch \<notin> set (elems (subscribers w''))"
      using run_keeps_out [OF out r] by simp
    have "registry_ok w''"
      using ok' r by (rule registry_ok_run)
    from Publish_ok [OF this, of e] obtain st3 where
      p: "Publish e w'' = Inr (w''\<lparr>store := st3\<rparr>)" by (elim exE conjE)
    have "chan_at (store (w''\<lparr>store := st3\<rparr>)) ch = chan_at (store w'') ch"
      using p notin by (rule Publish_Inr(3))
    with p show "\<exists>w3. Publish e w'' = Inr w3 \<and> chan_at (store w3) ch = chan_at (store w'') ch"
      by (intro exI conjI)
  qed
  have drain_all: "\<forall>n. fst (recv_n (length (buf (store w ! ch)) + n) ch (store w')) =
                 map Value (buf (store w ! ch)) @ replicate n EndOfStream"
    by (intro allI) (rule drain)
  show ?thesis
    by (intro conjI) (rule u len at drain_all later)+
qed

theorem Unsubscribe_ends_stream_witness:
  "registry_ok \<lparr>store = [\<lparr>cap = 2, buf = [''a''], closed = False\<rparr>,
                          \<lparr>cap = 1, buf = [], closed = False\<rparr>],
                 subscribers = Some [0, 1]\<rparr>
   \<and> (0::chanref) \<in> set (elems (Some [0, 1]))
   \<and> Unsubscribe 0 \<lparr>store = [\<lparr>cap = 2, buf = [''a''], closed = False\<rparr>,
                             \<lparr>cap = 1, buf = [], closed = False\<rparr>],
                    subscribers = Some [0, 1]\<rparr> =
       Inr \<lparr>store = [\<lparr>cap = 2, buf = [''a''], closed = True\<rparr>,
                     \<lparr>cap = 1, buf = [], closed = False\<rparr>],
            subscribers = Some [1]\<rparr>"
proof -
  let ?w = "\<lparr>store = [\<lparr>cap = 2, buf = [''a''], closed = False\<rparr>,
                          \<lparr>cap = 1, buf = [], closed = False\<rparr>],
                 subscribers = Some [0, 1]\<rparr>"
  have ok: "registry_ok ?w"
    by (simp add: registry_ok_def elems_def is_open_def chan_at_def)
  have mem: "0 \<in> set (elems (subscribers ?w))"
    by (simp add: elems_def)
  have "Unsubscribe 0 ?w =
       Inr (?w\<lparr>store := (store ?w)[0 := (store ?w ! 0)\<lparr>closed := True\<rparr>],
              subscribers := Some (filter (\<lambda>x. x \<noteq> 0) (elems (subscribers ?w)))\<rparr>)"
    by (rule Unsubscribe_ends_stream [OF ok mem, THEN conjunct1])
  with ok mem show ?thesis
    by (simp add: elems_def)
qed

subsection \<open>Close is total\<close>

text \<open>
  C4 (Close is total): in every state with a well-formed registry \<open>Close\<close> returns
  normally. In every state, when \<open>Close\<close> returns, the registry is the nil slice, so
  \<open>Subscribers\<close> has no element; each handle that was in the registry refers to its
  old channel, now closed, whose consumer receives the buffered events and then only end
  of stream; and no other channel has changed.
\<close>

theorem Close_total:
  "(registry_ok w \<longrightarrow> (\<exists>w'. Close w = Inr w'))
   \<and> (\<forall>w'. Close w = Inr w' \<longrightarrow>
         Subscribers w' = None \<and> elems (Subscribers w') = []
         \<and> (\<forall>ch \<in> set (elems (Subscribers w)).
               chan_at (store w') ch = Some ((store w ! ch)\<lparr>closed := True\<rparr>)
               \<and> (\<forall>n. fst (recv_n (length (buf (store w ! ch)) + n) ch (store w')) =
                         map Value (buf (store w ! ch)) @ replicate n EndOfStream))
         \<and> (\<forall>ch. ch \<notin> set (elems (Subscribers w)) \<longrightarrow>
               chan_at (store w') ch = chan_at (store w) ch))"
proof -
  have total: "registry_ok w \<longrightarrow> (\<exists>w'. Close w = Inr w')"
    by (simp add: Close_ok)
  have post: "Subscribers w' = None \<and> elems (Subscribers w') = []
         \<and> (\<forall>ch \<in> set (elems (Subscribers w)).
               chan_at (store w') ch = Some ((store w ! ch)\<lparr>closed := True\<rparr>)
               \<and> (\<forall>n. fst (recv_n (length (buf (store w ! ch)) + n) ch (store w')) =
                         map Value (buf (store w ! ch)) @ replicate n EndOfStream))
         \<and> (\<forall>ch. ch \<notin> set (elems (Subscribers w)) \<longrightarrow>
               chan_at (store w') ch = chan_at (store w) ch)"
    if c: "Close w = Inr w'" for w'
  proof -
    have ok: "registry_ok w" using c by (rule Close_Inr_registry_ok)
    have w': "store w' = update_all (\<lambda>c. c\<lparr>closed := True\<rparr>) (elems (subscribers w)) (store w)"
      using c Close_ok [OF ok] by auto
    have "subscribers w' = None" using c by (rule Close_Inr_subscribers)
    then have nil: "Subscribers w' = None" and empty: "elems (Subscribers w') = []"
      by (simp_all add: Subscribers_def elems_def)
    have at: "chan_at (store w') ch = Some ((store w ! ch)\<lparr>closed := True\<rparr>)"
      if mem: "ch \<in> set (elems (Subscribers w))" for ch
    proof -
      have "is_open (store w) ch"
        using ok mem by (simp add: registry_ok_def list_all_iff Subscribers_def)
      then have "ch < length (store w)" by (rule is_open_lt)
      with mem show ?thesis
        by (simp add: w' chan_at_def nth_update_all Subscribers_def)
    qed
    have inside: "\<forall>ch \<in> set (elems (Subscribers w)).
               chan_at (store w') ch = Some ((store w ! ch)\<lparr>closed := True\<rparr>)
               \<and> (\<forall>n. fst (recv_n (length (buf (store w ! ch)) + n) ch (store w')) =
                         map Value (buf (store w ! ch)) @ replicate n EndOfStream)"
    proof (intro ballI conjI allI)
      fix ch assume "ch \<in> set (elems (Subscribers w))"
      then show "chan_at (store w') ch = Some ((store w ! ch)\<lparr>closed := True\<rparr>)"
        by (rule at)
    next
      fix ch n assume "ch \<in> set (elems (Subscribers w))"
      then have "chan_at (store w') ch = Some ((store w ! ch)\<lparr>closed := True\<rparr>)"
        by (rule at)
      from recv_n_drain [OF this, of n]
      show "fst (recv_n (length (buf (store w ! ch)) + n) ch (store w')) =
              map Value (buf (store w ! ch)) @ replicate n EndOfStream"
        by simp
    qed
    have outside: "\<forall>ch. ch \<notin> set (elems (Subscribers w)) \<longrightarrow>
               chan_at (store w') ch = chan_at (store w) ch"
      by (simp add: w' chan_at_update_all Subscribers_def option.map_ident)
    show ?thesis
      by (intro conjI) (rule nil empty inside outside)+
  qed
  have after: "\<forall>w'. Close w = Inr w' \<longrightarrow>
         Subscribers w' = None \<and> elems (Subscribers w') = []
         \<and> (\<forall>ch \<in> set (elems (Subscribers w)).
               chan_at (store w') ch = Some ((store w ! ch)\<lparr>closed := True\<rparr>)
               \<and> (\<forall>n. fst (recv_n (length (buf (store w ! ch)) + n) ch (store w')) =
                         map Value (buf (store w ! ch)) @ replicate n EndOfStream))
         \<and> (\<forall>ch. ch \<notin> set (elems (Subscribers w)) \<longrightarrow>
               chan_at (store w') ch = chan_at (store w) ch)"
    by (intro allI impI) (rule post)
  show ?thesis
    by (rule conjI [OF total after])
qed

theorem Close_total_witness:
  "registry_ok \<lparr>store = [\<lparr>cap = 2, buf = [''a''], closed = False\<rparr>,
                          \<lparr>cap = 1, buf = [], closed = True\<rparr>,
                          \<lparr>cap = 1, buf = [], closed = False\<rparr>],
                 subscribers = Some [0, 2]\<rparr>
   \<and> Close \<lparr>store = [\<lparr>cap = 2, buf = [''a''], closed = False\<rparr>,
                     \<lparr>cap = 1, buf = [], closed = True\<rparr>,
                     \<lparr>cap = 1, buf = [], closed = False\<rparr>],
            subscribers = Some [0, 2]\<rparr> =
       Inr \<lparr>store = [\<lparr>cap = 2, buf = [''a''], closed = True\<rparr>,
                     \<lparr>cap = 1, buf = [], closed = True\<rparr>,
                     \<lparr>cap = 1, buf = [], closed = True\<rparr>],
            subscribers = None\<rparr>
   \<and> Subscribers \<lparr>store = [\<lparr>cap = 2, buf = [''a''], closed = True\<rparr>,
                           \<lparr>cap = 1, buf = [], closed = True\<rparr>,
                           \<lparr>cap = 1, buf = [], closed = True\<rparr>],
                   subscribers = None\<rparr> = None"
proof -
  let ?w = "\<lparr>store = [\<lparr>cap = 2, buf = [''a''], closed = False\<rparr>,
                          \<lparr>cap = 1, buf = [], closed = True\<rparr>,
                          \<lparr>cap = 1, buf = [], closed = False\<rparr>],
                 subscribers = Some [0, 2]\<rparr>"
  let ?w' = "\<lparr>store = [\<lparr>cap = 2, buf = [''a''], closed = True\<rparr>,
                     \<lparr>cap = 1, buf = [], closed = True\<rparr>,
                     \<lparr>cap = 1, buf = [], closed = True\<rparr>],
            subscribers = None\<rparr>"
  have ok: "registry_ok ?w"
    by (simp add: registry_ok_def elems_def is_open_def chan_at_def)
  have c: "Close ?w = Inr ?w'"
    by (simp add: Close_def elems_def close_chan_def chan_at_def)
  from Close_total [of ?w, THEN conjunct2, THEN spec, THEN mp, OF c]
  have "Subscribers ?w' = None" by (rule conjunct1)
  with ok c show ?thesis by (intro conjI)
qed

subsection \<open>Calls after Close\<close>

text \<open>
  C5 (misuse is fatal), as the code has it: when \<open>Close\<close> has returned, a second
  \<open>Close\<close> returns normally and changes nothing, and so do \<open>Publish\<close> and
  \<open>Unsubscribe\<close>; no channel is closed a second time, because the first \<open>Close\<close>
  left the nil registry.
\<close>

theorem Close_twice_noop:
  "Close w = Inr w' \<Longrightarrow>
   Close w' = Inr w' \<and> Publish e w' = Inr w' \<and> Unsubscribe ch w' = Inr w'"
  by (auto dest!: Close_Inr_subscribers simp: Close_nil Publish_nil Unsubscribe_nil)

theorem Close_twice_noop_witness:
  "Close \<lparr>store = [\<lparr>cap = 1, buf = [''a''], closed = False\<rparr>], subscribers = Some [0]\<rparr> =
     Inr \<lparr>store = [\<lparr>cap = 1, buf = [''a''], closed = True\<rparr>], subscribers = None\<rparr>
   \<and> Close \<lparr>store = [\<lparr>cap = 1, buf = [''a''], closed = True\<rparr>], subscribers = None\<rparr> =
     Inr \<lparr>store = [\<lparr>cap = 1, buf = [''a''], closed = True\<rparr>], subscribers = None\<rparr>
   \<and> Publish ''b'' \<lparr>store = [\<lparr>cap = 1, buf = [''a''], closed = True\<rparr>], subscribers = None\<rparr> =
     Inr \<lparr>store = [\<lparr>cap = 1, buf = [''a''], closed = True\<rparr>], subscribers = None\<rparr>
   \<and> Unsubscribe 0 \<lparr>store = [\<lparr>cap = 1, buf = [''a''], closed = True\<rparr>], subscribers = None\<rparr> =
     Inr \<lparr>store = [\<lparr>cap = 1, buf = [''a''], closed = True\<rparr>], subscribers = None\<rparr>"
proof -
  have c: "Close \<lparr>store = [\<lparr>cap = 1, buf = [''a''], closed = False\<rparr>], subscribers = Some [0]\<rparr> =
     Inr \<lparr>store = [\<lparr>cap = 1, buf = [''a''], closed = True\<rparr>], subscribers = None\<rparr>"
    by (simp add: Close_def elems_def close_chan_def chan_at_def)
  from c Close_twice_noop [OF c, of "''b''" 0] show ?thesis by (intro conjI) simp_all
qed

theorem Close_twice_counterexample:
  "run [SubscribeOp 1, PublishOp ''a'', CloseOp] (New []) =
     Inr \<lparr>store = [\<lparr>cap = 1, buf = [''a''], closed = True\<rparr>], subscribers = None\<rparr>
   \<and> Close \<lparr>store = [\<lparr>cap = 1, buf = [''a''], closed = True\<rparr>], subscribers = None\<rparr> =
     Inr \<lparr>store = [\<lparr>cap = 1, buf = [''a''], closed = True\<rparr>], subscribers = None\<rparr>
   \<and> run [SubscribeOp 1, PublishOp ''a'', CloseOp, CloseOp] (New []) \<noteq> Inl CloseOfClosedChannel"
  by (simp add: New_def Subscribe_def make_chan_def Publish_def try_send_def Close_def
      close_chan_def chan_at_def elems_def)

subsection \<open>Unknown handles\<close>

text \<open>
  C6 (unknown handle is a no-op): for every state and every handle that is not in the
  registry, \<open>Unsubscribe\<close> returns normally with the very same state: the registry
  and every channel of the store, closed flags included, are unchanged.
\<close>

theorem Unsubscribe_unknown_noop:
  "ch \<notin> set (elems (subscribers w)) \<Longrightarrow> Unsubscribe ch w = Inr w"
  by (simp add: Unsubscribe_def index_of_None)

theorem Unsubscribe_unknown_noop_witness:
  "(5::chanref) \<notin> set (elems (subscribers \<lparr>store = [\<lparr>cap = 1, buf = [''x''], closed = False\<rparr>], subscribers = Some [0]\<rparr>))
   \<and> Unsubscribe 5 \<lparr>store = [\<lparr>cap = 1, buf = [''x''], closed = False\<rparr>], subscribers = Some [0]\<rparr>
       = Inr \<lparr>store = [\<lparr>cap = 1, buf = [''x''], closed = False\<rparr>], subscribers = Some [0]\<rparr>"
  using Unsubscribe_unknown_noop [of 5 "\<lparr>store = [\<lparr>cap = 1, buf = [''x''], closed = False\<rparr>], subscribers = Some [0]\<rparr>"]
  by (simp add: elems_def)

subsection \<open>The scenario\<close>

text \<open>
  C7 (the scenario of the specification): on a fresh bus two calls of \<open>Subscribe 2\<close>
  return the handles 0 and 1. After publishing a, b and c both queues hold a and b in
  that order; c was dropped from both, the state after c being the state before it.
  \<open>Unsubscribe\<close> of the first handle closes it, its consumer receives a, b and then end
  of stream, and the registry holds the second handle alone. \<open>Close\<close> then closes the
  second handle, whose consumer receives a, b and then end of stream, and the registry
  is nil.
\<close>

theorem scenario:
  "Subscribe 2 (New []) =
     Inr (0, \<lparr>store = [\<lparr>cap = 2, buf = [], closed = False\<rparr>], subscribers = Some [0]\<rparr>)
   \<and> Subscribe 2 \<lparr>store = [\<lparr>cap = 2, buf = [], closed = False\<rparr>], subscribers = Some [0]\<rparr> =
     Inr (1, \<lparr>store = [\<lparr>cap = 2, buf = [], closed = False\<rparr>,
                        \<lparr>cap = 2, buf = [], closed = False\<rparr>],
              subscribers = Some [0, 1]\<rparr>)
   \<and> run [PublishOp ''a'', PublishOp ''b'']
         \<lparr>store = [\<lparr>cap = 2, buf = [], closed = False\<rparr>,
                   \<lparr>cap = 2, buf = [], closed = False\<rparr>],
          subscribers = Some [0, 1]\<rparr> =
     Inr \<lparr>store = [\<lparr>cap = 2, buf = [''a'', ''b''], closed = False\<rparr>,
                   \<lparr>cap = 2, buf = [''a'', ''b''], closed = False\<rparr>],
          subscribers = Some [0, 1]\<rparr>
   \<and> Publish ''c''
         \<lparr>store = [\<lparr>cap = 2, buf = [''a'', ''b''], closed = False\<rparr>,
                   \<lparr>cap = 2, buf = [''a'', ''b''], closed = False\<rparr>],
          subscribers = Some [0, 1]\<rparr> =
     Inr \<lparr>store = [\<lparr>cap = 2, buf = [''a'', ''b''], closed = False\<rparr>,
                   \<lparr>cap = 2, buf = [''a'', ''b''], closed = False\<rparr>],
          subscribers = Some [0, 1]\<rparr>
   \<and> Unsubscribe 0
         \<lparr>store = [\<lparr>cap = 2, buf = [''a'', ''b''], closed = False\<rparr>,
                   \<lparr>cap = 2, buf = [''a'', ''b''], closed = False\<rparr>],
          subscribers = Some [0, 1]\<rparr> =
     Inr \<lparr>store = [\<lparr>cap = 2, buf = [''a'', ''b''], closed = True\<rparr>,
                   \<lparr>cap = 2, buf = [''a'', ''b''], closed = False\<rparr>],
          subscribers = Some [1]\<rparr>
   \<and> fst (recv_n 3 0 [\<lparr>cap = 2, buf = [''a'', ''b''], closed = True\<rparr>,
                       \<lparr>cap = 2, buf = [''a'', ''b''], closed = False\<rparr>]) =
     [Value ''a'', Value ''b'', EndOfStream]
   \<and> Subscribers \<lparr>store = [\<lparr>cap = 2, buf = [''a'', ''b''], closed = True\<rparr>,
                           \<lparr>cap = 2, buf = [''a'', ''b''], closed = False\<rparr>],
                  subscribers = Some [1]\<rparr> = Some [1]
   \<and> length (elems (Some [1::chanref])) = 1
   \<and> Close \<lparr>store = [\<lparr>cap = 2, buf = [''a'', ''b''], closed = True\<rparr>,
                     \<lparr>cap = 2, buf = [''a'', ''b''], closed = False\<rparr>],
            subscribers = Some [1]\<rparr> =
     Inr \<lparr>store = [\<lparr>cap = 2, buf = [''a'', ''b''], closed = True\<rparr>,
                   \<lparr>cap = 2, buf = [''a'', ''b''], closed = True\<rparr>],
          subscribers = None\<rparr>
   \<and> fst (recv_n 3 1 [\<lparr>cap = 2, buf = [''a'', ''b''], closed = True\<rparr>,
                       \<lparr>cap = 2, buf = [''a'', ''b''], closed = True\<rparr>]) =
     [Value ''a'', Value ''b'', EndOfStream]
   \<and> Subscribers \<lparr>store = [\<lparr>cap = 2, buf = [''a'', ''b''], closed = True\<rparr>,
                           \<lparr>cap = 2, buf = [''a'', ''b''], closed = True\<rparr>],
                  subscribers = None\<rparr> = None
   \<and> elems (None :: chanref list option) = []
   \<and> run [SubscribeOp 2, SubscribeOp 2, PublishOp ''a'', PublishOp ''b'', PublishOp ''c'',
           UnsubscribeOp 0, CloseOp] (New []) =
     Inr \<lparr>store = [\<lparr>cap = 2, buf = [''a'', ''b''], closed = True\<rparr>,
                   \<lparr>cap = 2, buf = [''a'', ''b''], closed = True\<rparr>],
          subscribers = None\<rparr>"
  by (simp add: New_def Subscribe_def make_chan_def Publish_def try_send_def Unsubscribe_def
      Close_def close_chan_def chan_at_def elems_def Subscribers_def try_recv_def
      numeral_3_eq_3)

subsection \<open>No handle twice\<close>

text \<open>
  C8 (no handle twice): whatever calls are made on a fresh bus, in any store of other
  channels, when they have all returned the handles of the registry are pairwise
  different; and a \<open>Subscribe\<close> made then appends, at the end of the registry, a handle
  that the registry does not hold.
\<close>

theorem registry_distinct:
  assumes "run xs (New st) = Inr w"
  shows "distinct (elems (Subscribers w))
       \<and> (\<forall>c ch w'. Subscribe c w = Inr (ch, w') \<longrightarrow>
             ch \<notin> set (elems (Subscribers w))
             \<and> Subscribers w' = Some (elems (Subscribers w) @ [ch])
             \<and> distinct (elems (Subscribers w')))"
proof -
  have ok: "registry_ok w"
    using registry_ok_New assms by (rule registry_ok_run)
  then have d: "distinct (elems (Subscribers w))"
    by (simp add: registry_ok_def Subscribers_def)
  have s: "\<forall>c ch w'. Subscribe c w = Inr (ch, w') \<longrightarrow>
             ch \<notin> set (elems (Subscribers w))
             \<and> Subscribers w' = Some (elems (Subscribers w) @ [ch])
             \<and> distinct (elems (Subscribers w'))"
  proof (intro allI impI)
    fix c ch w' assume sub: "Subscribe c w = Inr (ch, w')"
    have "registry_ok w'" using ok sub by (rule registry_ok_Subscribe)
    then have "distinct (elems (Subscribers w'))"
      by (simp add: registry_ok_def Subscribers_def)
    with Subscribe_fresh [OF ok sub]
    show "ch \<notin> set (elems (Subscribers w))
             \<and> Subscribers w' = Some (elems (Subscribers w) @ [ch])
             \<and> distinct (elems (Subscribers w'))"
      by (simp add: Subscribers_def)
  qed
  show ?thesis by (rule conjI [OF d s])
qed

theorem registry_distinct_witness:
  "run [SubscribeOp 1, SubscribeOp 0, PublishOp ''a'', UnsubscribeOp 0, SubscribeOp 2] (New []) =
     Inr \<lparr>store = [\<lparr>cap = 1, buf = [''a''], closed = True\<rparr>,
                   \<lparr>cap = 0, buf = [], closed = False\<rparr>,
                   \<lparr>cap = 2, buf = [], closed = False\<rparr>],
          subscribers = Some [1, 2]\<rparr>
   \<and> distinct (elems (Subscribers
        \<lparr>store = [\<lparr>cap = 1, buf = [''a''], closed = True\<rparr>,
                   \<lparr>cap = 0, buf = [], closed = False\<rparr>,
                   \<lparr>cap = 2, buf = [], closed = False\<rparr>],
          subscribers = Some [1, 2]\<rparr>))"
proof -
  have r: "run [SubscribeOp 1, SubscribeOp 0, PublishOp ''a'', UnsubscribeOp 0, SubscribeOp 2] (New []) =
     Inr \<lparr>store = [\<lparr>cap = 1, buf = [''a''], closed = True\<rparr>,
                   \<lparr>cap = 0, buf = [], closed = False\<rparr>,
                   \<lparr>cap = 2, buf = [], closed = False\<rparr>],
          subscribers = Some [1, 2]\<rparr>"
    by (simp add: New_def Subscribe_def make_chan_def Publish_def try_send_def Unsubscribe_def
        close_chan_def chan_at_def elems_def)
  from r registry_distinct [OF r, THEN conjunct1] show ?thesis by (rule conjI)
qed

subsection \<open>Single close\<close>

text \<open>
  C9 (single close): a fresh bus has a well-formed registry, and from a well-formed
  registry no call and no sequence of calls ends in the panic of closing a closed
  channel; when the sequence returns, the registry is well formed again, so each of its
  handles is still open. A call closes an open channel only if the handle was in the
  registry before the call and is not in it after the call.
\<close>

theorem single_close:
  assumes "registry_ok w"
  shows "registry_ok (New st)
       \<and> exec x w \<noteq> Inl CloseOfClosedChannel
       \<and> run xs w \<noteq> Inl CloseOfClosedChannel
       \<and> (\<forall>w'. run xs w = Inr w' \<longrightarrow>
             registry_ok w' \<and> list_all (is_open (store w')) (elems (Subscribers w')))
       \<and> (\<forall>w' ch. exec x w = Inr w' \<and> is_open (store w) ch \<and> \<not> is_open (store w') ch \<longrightarrow>
             ch \<in> set (elems (Subscribers w)) \<and> ch \<notin> set (elems (Subscribers w')))"
proof -
  have a: "registry_ok (New st)" by (rule registry_ok_New)
  have b: "exec x w \<noteq> Inl CloseOfClosedChannel"
    using exec_panic [OF assms, of x CloseOfClosedChannel] by auto
  have c: "run xs w \<noteq> Inl CloseOfClosedChannel"
    using run_panic [OF assms, of xs CloseOfClosedChannel] by auto
  have d: "\<forall>w'. run xs w = Inr w' \<longrightarrow>
             registry_ok w' \<and> list_all (is_open (store w')) (elems (Subscribers w'))"
  proof (intro allI impI)
    fix w' assume "run xs w = Inr w'"
    with assms have "registry_ok w'" by (rule registry_ok_run)
    then show "registry_ok w' \<and> list_all (is_open (store w')) (elems (Subscribers w'))"
      by (simp add: registry_ok_def Subscribers_def)
  qed
  have e: "\<forall>w' ch. exec x w = Inr w' \<and> is_open (store w) ch \<and> \<not> is_open (store w') ch \<longrightarrow>
             ch \<in> set (elems (Subscribers w)) \<and> ch \<notin> set (elems (Subscribers w'))"
  proof (intro allI impI)
    fix w' ch
    assume "exec x w = Inr w' \<and> is_open (store w) ch \<and> \<not> is_open (store w') ch"
    then have "exec x w = Inr w'" "is_open (store w) ch" "\<not> is_open (store w') ch"
      by simp_all
    with assms show "ch \<in> set (elems (Subscribers w)) \<and> ch \<notin> set (elems (Subscribers w'))"
      unfolding Subscribers_def by (rule closed_only_when_removed)
  qed
  show ?thesis
    by (intro conjI) (rule a b c d e)+
qed

theorem single_close_witness:
  "registry_ok \<lparr>store = [\<lparr>cap = 1, buf = [''a''], closed = False\<rparr>,
                          \<lparr>cap = 1, buf = [], closed = False\<rparr>],
                 subscribers = Some [0, 1]\<rparr>
   \<and> run [UnsubscribeOp 0, UnsubscribeOp 0, CloseOp, CloseOp]
        \<lparr>store = [\<lparr>cap = 1, buf = [''a''], closed = False\<rparr>,
                  \<lparr>cap = 1, buf = [], closed = False\<rparr>],
         subscribers = Some [0, 1]\<rparr> \<noteq> Inl CloseOfClosedChannel
   \<and> run [UnsubscribeOp 0, UnsubscribeOp 0, CloseOp, CloseOp]
        \<lparr>store = [\<lparr>cap = 1, buf = [''a''], closed = False\<rparr>,
                  \<lparr>cap = 1, buf = [], closed = False\<rparr>],
         subscribers = Some [0, 1]\<rparr> =
       Inr \<lparr>store = [\<lparr>cap = 1, buf = [''a''], closed = True\<rparr>,
                     \<lparr>cap = 1, buf = [], closed = True\<rparr>],
            subscribers = None\<rparr>"
proof -
  let ?w = "\<lparr>store = [\<lparr>cap = 1, buf = [''a''], closed = False\<rparr>,
                          \<lparr>cap = 1, buf = [], closed = False\<rparr>],
                 subscribers = Some [0, 1]\<rparr>"
  have ok: "registry_ok ?w"
    by (simp add: registry_ok_def elems_def is_open_def chan_at_def)
  have np: "run [UnsubscribeOp 0, UnsubscribeOp 0, CloseOp, CloseOp] ?w \<noteq> Inl CloseOfClosedChannel"
    by (rule single_close [OF ok, THEN conjunct2, THEN conjunct2, THEN conjunct1])
  have r: "run [UnsubscribeOp 0, UnsubscribeOp 0, CloseOp, CloseOp] ?w =
       Inr \<lparr>store = [\<lparr>cap = 1, buf = [''a''], closed = True\<rparr>,
                     \<lparr>cap = 1, buf = [], closed = True\<rparr>],
            subscribers = None\<rparr>"
    by (simp add: Unsubscribe_def Close_def close_chan_def chan_at_def elems_def)
  show ?thesis
    by (intro conjI) (rule ok np r)+
qed

subsection \<open>The bus after Close\<close>



end
